theory Spec2Isabelle
  imports Main
begin

section \<open>The pooled stacks of \<^verbatim>\<open>stack_pool.hpp\<close>\<close>

text \<open>
  The class template \<^verbatim>\<open>stack_pool<T, N>\<close> takes the handle type \<^verbatim>\<open>N\<close> as a parameter, an
  unsigned integral type, \<^verbatim>\<open>std::size_t\<close> when none is given. A handle is modelled as a
  natural number and the type \<^verbatim>\<open>N\<close> by its width \<open>w\<close> in bits: 64 for \<^verbatim>\<open>std::size_t\<close>, 8
  for \<^verbatim>\<open>unsigned char\<close>. The width matters at the one place where a value of another type
  becomes a handle, the \<^verbatim>\<open>return pool.size()\<close> of \<^verbatim>\<open>_push\<close>, which keeps the size modulo
  \<open>2 ^ w\<close>. The only subtraction of the file, the \<^verbatim>\<open>x - 1\<close> of \<^verbatim>\<open>node\<close>, wraps for \<^verbatim>\<open>x = 0\<close>
  alone, and \<^verbatim>\<open>node\<close> writes that wrap-around out as an index out of range.
\<close>

subsection \<open>Data\<close>

type_synonym stack_type = nat

record 'v node_t =
  node_value :: 'v
  node_next :: stack_type

text \<open>
  The members of \<^verbatim>\<open>stack_pool\<close>. The vector \<^verbatim>\<open>pool\<close> is its elements together with the
  capacity it has allocated, which \<^verbatim>\<open>capacity()\<close> reports.
\<close>

record 'v stack_pool =
  pool :: "'v node_t list"
  pool_capacity :: nat
  free_nodes :: stack_type

text \<open>
  An operation ends early in two ways: a failed \<^verbatim>\<open>AP_ERROR\<close> check, which carries the
  message streamed into it, and an access \<^verbatim>\<open>pool[i]\<close> outside the vector, which C++
  leaves undefined.
\<close>

datatype error = AP_error string | Out_of_range

text \<open>
  The members \<^verbatim>\<open>current\<close> and \<^verbatim>\<open>pool\<close> of \<^verbatim>\<open>_iterator\<close>; the pointer is a value of
  any type \<open>'p\<close>, resolved through a store \<open>'p \<Rightarrow> 'v stack_pool\<close>.
\<close>

record 'p iterator =
  current :: stack_type
  pool_ptr :: 'p

subsection \<open>The diagnostic check\<close>

text \<open>
  Modelled from the spec: the macro \<^verbatim>\<open>AP_ERROR\<close> of \<^verbatim>\<open>ap_error.hpp\<close>, a header that is not
  among the sources. The specification describes \<^verbatim>\<open>check(condition, message)\<close>: it evaluates
  the condition and, when it is false, reports the message and diverts control flow, so that
  the calling operation does not go on.
\<close>

definition AP_ERROR :: "bool \<Rightarrow> string \<Rightarrow> error + unit" where
  "AP_ERROR cond msg = (if cond then Inr () else Inl (AP_error msg))"

definition value_msg :: string where
  "value_msg = ''Trying to get value from an invalid stack'' @ [CHR 0x0A, CHR 0x0A]"

definition pop_msg :: string where
  "pop_msg = ''Trying to pop from an empty stack error '' @ [CHR 0x0A, CHR 0x0A]"

subsection \<open>Construction and queries\<close>

definition end_sp :: stack_type where
  "end_sp = 0"

definition new_stack :: stack_type where
  "new_stack = end_sp"

definition empty_sp :: "stack_type \<Rightarrow> bool" where
  "empty_sp x = (x = end_sp)"

text \<open>
  The conversion of a \<^verbatim>\<open>size_type\<close> to a handle type \<^verbatim>\<open>N\<close> of \<open>w\<close> bits: an unsigned type
  keeps the value modulo \<open>2 ^ w\<close>.
\<close>

definition to_stack_type :: "nat \<Rightarrow> nat \<Rightarrow> stack_type" where
  "to_stack_type w n = n mod 2 ^ w"

text \<open>
  \<^verbatim>\<open>pool.reserve(n)\<close> leaves a capacity of at least \<open>n\<close>; the model takes the least one.
\<close>

definition reserve :: "nat \<Rightarrow> 'v stack_pool \<Rightarrow> 'v stack_pool" where
  "reserve n s = s\<lparr>pool_capacity := max (pool_capacity s) n\<rparr>"

definition stack_pool_ctor :: "nat \<Rightarrow> 'v stack_pool" where
  "stack_pool_ctor n =
     reserve n \<lparr>pool = [], pool_capacity = 0, free_nodes = new_stack\<rparr>"

definition capacity :: "'v stack_pool \<Rightarrow> nat" where
  "capacity s = pool_capacity s"

text \<open>
  \<^verbatim>\<open>pool.push_back\<close>: the new element goes to the end; the capacity changes only when the
  vector is full. What the capacity grows to is the library's choice, the parameter \<open>grow\<close>
  (from the old capacity to the new one), never less than the new size.
\<close>

definition push_back :: "(nat \<Rightarrow> nat) \<Rightarrow> 'v node_t \<Rightarrow> 'v stack_pool \<Rightarrow> 'v stack_pool" where
  "push_back grow n s =
     s\<lparr>pool := pool s @ [n],
       pool_capacity :=
         (if length (pool s) < pool_capacity s then pool_capacity s
          else max (Suc (length (pool s))) (grow (pool_capacity s)))\<rparr>"

subsection \<open>Node access\<close>

text \<open>
  \<^verbatim>\<open>node(x)\<close> is \<^verbatim>\<open>pool[x - 1]\<close>, unchecked. For \<^verbatim>\<open>x = 0\<close> the index wraps to the
  largest value of its type, beyond the vector, so the handles inside the vector are those
  from 1 to its size.
\<close>

definition node :: "stack_type \<Rightarrow> 'v stack_pool \<Rightarrow> error + 'v node_t" where
  "node x s =
     (if x = 0 \<or> length (pool s) < x then Inl Out_of_range else Inr (pool s ! (x - 1)))"

text \<open>Reading through \<^verbatim>\<open>value(x)\<close> and assigning through the reference it returns.\<close>

definition value_sp :: "stack_type \<Rightarrow> 'v stack_pool \<Rightarrow> error + 'v" where
  "value_sp x s =
     (case AP_ERROR (\<not> empty_sp x) value_msg of
        Inl e \<Rightarrow> Inl e
      | Inr _ \<Rightarrow> (case node x s of Inl e \<Rightarrow> Inl e | Inr n \<Rightarrow> Inr (node_value n)))"

definition set_value :: "stack_type \<Rightarrow> 'v \<Rightarrow> 'v stack_pool \<Rightarrow> (error + unit) \<times> 'v stack_pool" where
  "set_value x v s =
     (case AP_ERROR (\<not> empty_sp x) value_msg of
        Inl e \<Rightarrow> (Inl e, s)
      | Inr _ \<Rightarrow>
          (case node x s of
             Inl e \<Rightarrow> (Inl e, s)
           | Inr n \<Rightarrow> (Inr (), s\<lparr>pool := (pool s)[x - 1 := n\<lparr>node_value := v\<rparr>]\<rparr>)))"

text \<open>Reading through \<^verbatim>\<open>next(x)\<close> and assigning through the reference it returns.\<close>

definition next_sp :: "stack_type \<Rightarrow> 'v stack_pool \<Rightarrow> error + stack_type" where
  "next_sp x s = (case node x s of Inl e \<Rightarrow> Inl e | Inr n \<Rightarrow> Inr (node_next n))"

definition set_next :: "stack_type \<Rightarrow> stack_type \<Rightarrow> 'v stack_pool \<Rightarrow> (error + unit) \<times> 'v stack_pool" where
  "set_next x y s =
     (case node x s of
        Inl e \<Rightarrow> (Inl e, s)
      | Inr n \<Rightarrow> (Inr (), s\<lparr>pool := (pool s)[x - 1 := n\<lparr>node_next := y\<rparr>]\<rparr>))"

subsection \<open>Iterators\<close>

definition iterator_ctor :: "'p \<Rightarrow> stack_type \<Rightarrow> 'p iterator" where
  "iterator_ctor p head = \<lparr>current = head, pool_ptr = p\<rparr>"

text \<open>\<^verbatim>\<open>operator=\<close> assigns \<^verbatim>\<open>current\<close>; the pointer is \<^verbatim>\<open>const\<close>.\<close>

definition it_assign :: "'p iterator \<Rightarrow> 'p iterator \<Rightarrow> 'p iterator" where
  "it_assign a x = a\<lparr>current := current x\<rparr>"

definition it_deref :: "('p \<Rightarrow> 'v stack_pool) \<Rightarrow> 'p iterator \<Rightarrow> error + 'v" where
  "it_deref H i = value_sp (current i) (H (pool_ptr i))"

definition it_addr :: "'p iterator \<Rightarrow> stack_type" where
  "it_addr i = current i"

definition it_incr :: "('p \<Rightarrow> 'v stack_pool) \<Rightarrow> 'p iterator \<Rightarrow> error + 'p iterator" where
  "it_incr H i =
     (case next_sp (current i) (H (pool_ptr i)) of
        Inl e \<Rightarrow> Inl e
      | Inr n \<Rightarrow> Inr (i\<lparr>current := n\<rparr>))"

definition it_eq :: "'p iterator \<Rightarrow> 'p iterator \<Rightarrow> bool" where
  "it_eq x y = (current x = current y)"

definition it_neq :: "'p iterator \<Rightarrow> 'p iterator \<Rightarrow> bool" where
  "it_neq x y = (\<not> it_eq x y)"

definition begin_sp :: "'p \<Rightarrow> stack_type \<Rightarrow> 'p iterator" where
  "begin_sp p x = iterator_ctor p x"

text \<open>\<^verbatim>\<open>end(stack_type)\<close> ignores its argument.\<close>

definition end_it :: "'p \<Rightarrow> stack_type \<Rightarrow> 'p iterator" where
  "end_it p x = iterator_ctor p end_sp"

text \<open>
  The loop a caller writes over one stack,
  \<^verbatim>\<open>for (auto i = p.begin(h); i != p.end(h); ++i) out.push_back(*i);\<close>
  with \<open>acc\<close> the values collected so far. A chain that never reaches the sentinel keeps the
  loop running: the result is then \<open>None\<close>.
\<close>

partial_function (option) traverse ::
  "('p \<Rightarrow> 'v stack_pool) \<Rightarrow> 'p iterator \<Rightarrow> 'p iterator \<Rightarrow> 'v list \<Rightarrow> (error + 'v list) option"
where
  "traverse H i fin acc =
     (if it_neq i fin then
        (case it_deref H i of
           Inl e \<Rightarrow> Some (Inl e)
         | Inr v \<Rightarrow>
             (case it_incr H i of
                Inl e \<Rightarrow> Some (Inl e)
              | Inr i' \<Rightarrow> traverse H i' fin (acc @ [v])))
      else Some (Inr acc))"

declare traverse.simps [code]

definition stack_values :: "'v stack_pool \<Rightarrow> stack_type \<Rightarrow> (error + 'v list) option" where
  "stack_values s h = traverse (\<lambda>_. s) (begin_sp () h) (end_it () h) []"

subsection \<open>Moving nodes between stacks\<close>

text \<open>
  \<^verbatim>\<open>move_head(from, to)\<close> takes two handles by reference, neither of them inside the
  vector. It swaps \<^verbatim>\<open>next(from)\<close> with \<^verbatim>\<open>to\<close> and then \<^verbatim>\<open>from\<close> with \<^verbatim>\<open>to\<close>; the model returns
  the new values of \<^verbatim>\<open>from\<close> and \<^verbatim>\<open>to\<close>, and the caller stores each where the reference
  pointed.
\<close>

definition move_head ::
  "stack_type \<Rightarrow> stack_type \<Rightarrow> 'v stack_pool \<Rightarrow> (error + stack_type \<times> stack_type) \<times> 'v stack_pool"
where
  "move_head from to s =
     (case next_sp from s of
        Inl e \<Rightarrow> (Inl e, s)
      | Inr n \<Rightarrow>
          (case set_next from to s of
             (Inl e, s') \<Rightarrow> (Inl e, s')
           | (Inr _, s') \<Rightarrow> (let to1 = n; from2 = to1; to2 = from in (Inr (from2, to2), s'))))"

text \<open>
  \<^verbatim>\<open>_push\<close>, for a handle type of \<open>w\<close> bits. With an empty free list the handle returned is
  \<^verbatim>\<open>pool.size()\<close>, converted to the handle type.
\<close>

definition push_impl ::
  "nat \<Rightarrow> (nat \<Rightarrow> nat) \<Rightarrow> 'v \<Rightarrow> stack_type \<Rightarrow> 'v stack_pool \<Rightarrow>
     (error + stack_type) \<times> 'v stack_pool"
where
  "push_impl w grow val head s =
     (if empty_sp (free_nodes s) then
        (let s' = push_back grow \<lparr>node_value = val, node_next = head\<rparr> s
         in (Inr (to_stack_type w (length (pool s'))), s'))
      else
        (case set_value (free_nodes s) val s of
           (Inl e, s1) \<Rightarrow> (Inl e, s1)
         | (Inr _, s1) \<Rightarrow>
             (case move_head (free_nodes s1) head s1 of
                (Inl e, s2) \<Rightarrow> (Inl e, s2)
              | (Inr (from', head'), s2) \<Rightarrow> (Inr head', s2\<lparr>free_nodes := from'\<rparr>))))"

definition push ::
  "nat \<Rightarrow> (nat \<Rightarrow> nat) \<Rightarrow> 'v \<Rightarrow> stack_type \<Rightarrow> 'v stack_pool \<Rightarrow>
     (error + stack_type) \<times> 'v stack_pool"
where
  "push w grow val head s = push_impl w grow val head s"

definition pop :: "stack_type \<Rightarrow> 'v stack_pool \<Rightarrow> (error + stack_type) \<times> 'v stack_pool" where
  "pop x s =
     (case AP_ERROR (\<not> empty_sp x) pop_msg of
        Inl e \<Rightarrow> (Inl e, s)
      | Inr _ \<Rightarrow>
          (case move_head x (free_nodes s) s of
             (Inl e, s') \<Rightarrow> (Inl e, s')
           | (Inr (x', to'), s') \<Rightarrow> (Inr x', s'\<lparr>free_nodes := to'\<rparr>)))"

text \<open>
  \<^verbatim>\<open>get_last\<close>: an iterator on this pool walks while the node after it is not the sentinel.
  On a chain that runs in a circle the loop does not end, the result \<open>None\<close>.
\<close>

partial_function (option) get_last_loop ::
  "'v stack_pool \<Rightarrow> unit iterator \<Rightarrow> (error + stack_type) option"
where
  "get_last_loop s first =
     (case next_sp (it_addr first) s of
        Inl e \<Rightarrow> Some (Inl e)
      | Inr n \<Rightarrow>
          (if n \<noteq> end_sp then
             (case it_incr (\<lambda>_. s) first of
                Inl e \<Rightarrow> Some (Inl e)
              | Inr first' \<Rightarrow> get_last_loop s first')
           else Some (Inr (it_addr first))))"

declare get_last_loop.simps [code]

definition get_last :: "stack_type \<Rightarrow> 'v stack_pool \<Rightarrow> (error + stack_type) option" where
  "get_last x s = get_last_loop s (begin_sp () x)"

definition free_stack ::
  "stack_type \<Rightarrow> 'v stack_pool \<Rightarrow> ((error + stack_type) \<times> 'v stack_pool) option"
where
  "free_stack x s =
     (if empty_sp x then Some (Inr x, s)
      else
        (case get_last x s of
           None \<Rightarrow> None
         | Some (Inl e) \<Rightarrow> Some (Inl e, s)
         | Some (Inr tmp) \<Rightarrow>
             (case set_next tmp (free_nodes s) s of
                (Inl e, s') \<Rightarrow> Some (Inl e, s')
              | (Inr _, s') \<Rightarrow> Some (Inr end_sp, s'\<lparr>free_nodes := x\<rparr>))))"

subsection \<open>Sequences of calls\<close>

text \<open>
  Pushing the values of a list, first to last, onto one stack: each call receives the head
  the call before it returned.
\<close>

fun push_all ::
  "nat \<Rightarrow> (nat \<Rightarrow> nat) \<Rightarrow> 'v list \<Rightarrow> stack_type \<Rightarrow> 'v stack_pool \<Rightarrow>
     (error + stack_type) \<times> 'v stack_pool"
where
  "push_all w grow [] h s = (Inr h, s)"
| "push_all w grow (v # vs) h s =
     (case push w grow v h s of
        (Inl e, s') \<Rightarrow> (Inl e, s')
      | (Inr h', s') \<Rightarrow> push_all w grow vs h' s')"

text \<open>
  Any sequence of calls of \<^verbatim>\<open>push\<close>, each with a value and a head of its own; the result is
  the handles returned, in the order of the calls.
\<close>

fun push_each ::
  "nat \<Rightarrow> (nat \<Rightarrow> nat) \<Rightarrow> ('v \<times> stack_type) list \<Rightarrow> 'v stack_pool \<Rightarrow>
     (error + stack_type list) \<times> 'v stack_pool"
where
  "push_each w grow [] s = (Inr [], s)"
| "push_each w grow ((v, h) # cs) s =
     (case push w grow v h s of
        (Inl e, s') \<Rightarrow> (Inl e, s')
      | (Inr k, s') \<Rightarrow>
          (case push_each w grow cs s' of
             (Inl e, s'') \<Rightarrow> (Inl e, s'')
           | (Inr ks, s'') \<Rightarrow> (Inr (k # ks), s'')))"

subsection \<open>Logical stacks\<close>

text \<open>
  A logical stack is a chain of nodes inside the vector: \<open>is_chain s h xs\<close> says that
  following \<^verbatim>\<open>next\<close> from the handle \<open>h\<close> passes the handles \<open>xs\<close>, each of them a node of the
  vector, and then arrives at the sentinel.
\<close>

fun is_chain :: "'v stack_pool \<Rightarrow> stack_type \<Rightarrow> stack_type list \<Rightarrow> bool" where
  "is_chain s h [] = (h = end_sp)"
| "is_chain s h (x # xs) =
     (h = x \<and> x \<noteq> end_sp \<and> x \<le> length (pool s) \<and>
      is_chain s (node_next (pool s ! (x - 1))) xs)"

definition value_at :: "'v stack_pool \<Rightarrow> stack_type \<Rightarrow> 'v" where
  "value_at s x = node_value (pool s ! (x - 1))"

definition doubling :: "nat \<Rightarrow> nat" where
  "doubling c = 2 * c"

subsection \<open>Sample pools\<close>

text \<open>
  The pool after \<^verbatim>\<open>push(10, 0)\<close>, \<^verbatim>\<open>push(20, 1)\<close> and \<^verbatim>\<open>pop(2)\<close> on an empty pool: node 1 is
  a stack, node 2 is free.
\<close>

definition one_free :: "nat stack_pool" where
  "one_free =
     \<lparr>pool = [\<lparr>node_value = 10, node_next = 0\<rparr>, \<lparr>node_value = 20, node_next = 0\<rparr>],
      pool_capacity = 2, free_nodes = 2\<rparr>"

text \<open>
  A pool of five nodes: the stack 3, 2, 1 with the values 30, 20, 10, and the free list 5, 4.
\<close>

definition three_pushed :: "nat stack_pool" where
  "three_pushed =
     \<lparr>pool = [\<lparr>node_value = 10, node_next = 0\<rparr>, \<lparr>node_value = 20, node_next = 1\<rparr>,
              \<lparr>node_value = 30, node_next = 2\<rparr>, \<lparr>node_value = 40, node_next = 0\<rparr>,
              \<lparr>node_value = 50, node_next = 4\<rparr>],
      pool_capacity = 8, free_nodes = 5\<rparr>"

text \<open>
  Three values pushed onto a stack A and then two onto a stack B, in a pool with 64-bit
  handles that starts empty: A is the handle 3 and B the handle 5.
\<close>

definition two_stacks :: "nat stack_pool" where
  "two_stacks =
     snd (push_all 64 doubling [40, 50] end_sp
       (snd (push_all 64 doubling [10, 20, 30] end_sp (stack_pool_ctor 0))))"

text \<open>
  The pool after three pushes onto one stack and \<^verbatim>\<open>free_stack\<close> of it: its three nodes are
  the free list 3, 2, 1.
\<close>

definition all_freed :: "nat stack_pool" where
  "all_freed =
     \<lparr>pool = [\<lparr>node_value = 10, node_next = 0\<rparr>, \<lparr>node_value = 20, node_next = 1\<rparr>,
              \<lparr>node_value = 30, node_next = 2\<rparr>],
      pool_capacity = 4, free_nodes = 3\<rparr>"

text \<open>
  A pool with 8-bit handles after 255 values pushed onto one stack: the vector holds 255
  nodes, as many as there are handles other than the sentinel, and the free list is empty.
\<close>

definition full_stack :: "nat stack_pool" where
  "full_stack = snd (push_all 8 doubling [0..<255] end_sp (stack_pool_ctor 0))"

section \<open>Basic facts\<close>

subsection \<open>Access to a node inside the vector\<close>

lemma node_inside:
  "x \<noteq> 0 \<Longrightarrow> x \<le> length (pool s) \<Longrightarrow> node x s = Inr (pool s ! (x - 1))"
  by (simp add: node_def)

lemma node_outside:
  "x = 0 \<or> length (pool s) < x \<Longrightarrow> node x s = Inl Out_of_range"
  by (simp add: node_def)

lemma next_sp_inside:
  "x \<noteq> 0 \<Longrightarrow> x \<le> length (pool s) \<Longrightarrow> next_sp x s = Inr (node_next (pool s ! (x - 1)))"
  by (simp add: next_sp_def node_inside)

lemma value_sp_inside:
  "x \<noteq> 0 \<Longrightarrow> x \<le> length (pool s) \<Longrightarrow> value_sp x s = Inr (value_at s x)"
  by (simp add: value_sp_def AP_ERROR_def empty_sp_def end_sp_def node_inside value_at_def)

lemma set_next_inside:
  "x \<noteq> 0 \<Longrightarrow> x \<le> length (pool s) \<Longrightarrow>
   set_next x y s = (Inr (), s\<lparr>pool := (pool s)[x - 1 := (pool s ! (x - 1))\<lparr>node_next := y\<rparr>]\<rparr>)"
  by (simp add: set_next_def node_inside)

lemma set_value_inside:
  "x \<noteq> 0 \<Longrightarrow> x \<le> length (pool s) \<Longrightarrow>
   set_value x v s = (Inr (), s\<lparr>pool := (pool s)[x - 1 := (pool s ! (x - 1))\<lparr>node_value := v\<rparr>]\<rparr>)"
  by (simp add: set_value_def AP_ERROR_def empty_sp_def end_sp_def node_inside)

lemma move_head_inside:
  "x \<noteq> 0 \<Longrightarrow> x \<le> length (pool s) \<Longrightarrow>
   move_head x y s =
     (Inr (node_next (pool s ! (x - 1)), x),
      s\<lparr>pool := (pool s)[x - 1 := (pool s ! (x - 1))\<lparr>node_next := y\<rparr>]\<rparr>)"
  by (simp add: move_head_def next_sp_inside set_next_inside)

subsection \<open>\<^verbatim>\<open>push\<close> and \<^verbatim>\<open>pop\<close>, branch by branch\<close>

lemma node_t_update_both:
  "(n :: 'v node_t)\<lparr>node_value := v, node_next := h\<rparr> = \<lparr>node_value = v, node_next = h\<rparr>"
  by (cases n) simp

lemma push_back_pool: "pool (push_back g n s) = pool s @ [n]"
  by (simp add: push_back_def)

lemma push_back_free_nodes: "free_nodes (push_back g n s) = free_nodes s"
  by (simp add: push_back_def)

lemma to_stack_type_small: "n < 2 ^ w \<Longrightarrow> to_stack_type w n = n"
  by (simp add: to_stack_type_def)

lemma push_grow:
  "free_nodes s = 0 \<Longrightarrow>
   push w g v h s =
     (Inr (to_stack_type w (Suc (length (pool s)))),
      push_back g \<lparr>node_value = v, node_next = h\<rparr> s)"
  by (simp add: push_def push_impl_def empty_sp_def end_sp_def push_back_def Let_def)

lemma push_grow_small:
  "free_nodes s = 0 \<Longrightarrow> Suc (length (pool s)) < 2 ^ w \<Longrightarrow>
   push w g v h s =
     (Inr (Suc (length (pool s))), push_back g \<lparr>node_value = v, node_next = h\<rparr> s)"
  by (simp add: push_grow to_stack_type_small)

lemma push_reuse:
  assumes "free_nodes s \<noteq> 0" and "free_nodes s \<le> length (pool s)"
  shows "push w g v h s =
     (Inr (free_nodes s),
      s\<lparr>pool := (pool s)[free_nodes s - 1 := \<lparr>node_value = v, node_next = h\<rparr>],
        free_nodes := node_next (pool s ! (free_nodes s - 1))\<rparr>)"
proof -
  let ?f = "free_nodes s"
  have idx: "?f - 1 < length (pool s)" using assms by arith
  have "set_value ?f v s =
      (Inr (), s\<lparr>pool := (pool s)[?f - 1 := (pool s ! (?f - 1))\<lparr>node_value := v\<rparr>]\<rparr>)"
    using assms by (rule set_value_inside)
  then show ?thesis
    using assms idx
    by (simp add: push_def push_impl_def empty_sp_def end_sp_def move_head_inside
        node_t_update_both)
qed

lemma push_outside:
  "length (pool s) < free_nodes s \<Longrightarrow> push w g v h s = (Inl Out_of_range, s)"
  by (simp add: push_def push_impl_def empty_sp_def end_sp_def set_value_def AP_ERROR_def
      node_def)

lemma pop_inside:
  "x \<noteq> 0 \<Longrightarrow> x \<le> length (pool s) \<Longrightarrow>
   pop x s =
     (Inr (node_next (pool s ! (x - 1))),
      s\<lparr>pool := (pool s)[x - 1 := (pool s ! (x - 1))\<lparr>node_next := free_nodes s\<rparr>],
        free_nodes := x\<rparr>)"
  by (simp add: pop_def AP_ERROR_def empty_sp_def end_sp_def move_head_inside)

subsection \<open>Chains\<close>

lemma is_chain_frame:
  "is_chain s h xs \<Longrightarrow> length (pool s) \<le> length (pool t) \<Longrightarrow>
   (\<And>x. x \<in> set xs \<Longrightarrow> node_next (pool t ! (x - 1)) = node_next (pool s ! (x - 1))) \<Longrightarrow>
   is_chain t h xs"
  by (induction xs arbitrary: h) auto

lemma is_chain_unique: "is_chain s h xs \<Longrightarrow> is_chain s h ys \<Longrightarrow> xs = ys"
proof (induction xs arbitrary: h ys)
  case Nil
  then show ?case by (cases ys) auto
next
  case (Cons x xs)
  then show ?case by (cases ys) auto
qed

lemma is_chain_suffix: "is_chain s h (xs @ y # ys) \<Longrightarrow> is_chain s y (y # ys)"
  by (induction xs arbitrary: h) auto

lemma is_chain_head_fresh:
  assumes "is_chain s h (x # xs)"
  shows "x \<notin> set xs"
proof
  assume "x \<in> set xs"
  then obtain as bs where xs: "xs = as @ x # bs"
    by (auto simp: in_set_conv_decomp)
  from assms have "is_chain s x ((x # as) @ x # bs)"
    by (simp add: xs)
  then have "is_chain s x (x # bs)"
    by (rule is_chain_suffix)
  moreover from assms have "is_chain s x (x # as @ x # bs)"
    by (simp add: xs)
  ultimately have "x # bs = x # as @ x # bs"
    by (rule is_chain_unique)
  then show False by simp
qed

lemma is_chain_distinct: "is_chain s h xs \<Longrightarrow> distinct xs"
proof (induction xs arbitrary: h)
  case Nil
  show ?case by simp
next
  case (Cons x xs)
  from Cons.prems have "x \<notin> set xs" by (rule is_chain_head_fresh)
  moreover from Cons.prems have "is_chain s (node_next (pool s ! (x - 1))) xs" by simp
  then have "distinct xs" by (rule Cons.IH)
  ultimately show ?case by simp
qed

lemma is_chain_inside: "is_chain s h xs \<Longrightarrow> x \<in> set xs \<Longrightarrow> x \<noteq> 0 \<and> x \<le> length (pool s)"
  by (induction xs arbitrary: h) (auto simp: end_sp_def)

subsection \<open>The loops on a chain\<close>

lemma get_last_loop_chain:
  "is_chain s h xs \<Longrightarrow> xs \<noteq> [] \<Longrightarrow>
   get_last_loop s \<lparr>current = h, pool_ptr = ()\<rparr> = Some (Inr (last xs))"
proof (induction xs arbitrary: h)
  case Nil
  then show ?case by simp
next
  case (Cons x xs)
  from Cons.prems have x: "h = x" "x \<noteq> 0" "x \<le> length (pool s)"
    and rest: "is_chain s (node_next (pool s ! (x - 1))) xs"
    by (simp_all add: end_sp_def)
  show ?case
  proof (cases xs)
    case Nil
    with rest have "node_next (pool s ! (x - 1)) = end_sp" by simp
    with x Nil show ?thesis
      by (subst get_last_loop.simps) (simp add: it_addr_def next_sp_inside)
  next
    case (Cons y ys)
    with rest have n: "node_next (pool s ! (x - 1)) = y" "y \<noteq> end_sp" by simp_all
    from rest Cons have "get_last_loop s \<lparr>current = y, pool_ptr = ()\<rparr> = Some (Inr (last xs))"
      using Cons.IH [of y] n by simp
    with x n Cons show ?thesis
      by (subst get_last_loop.simps) (simp add: it_addr_def it_incr_def next_sp_inside)
  qed
qed

lemma is_chain_last:
  "is_chain s h xs \<Longrightarrow> xs \<noteq> [] \<Longrightarrow> node_next (pool s ! (last xs - 1)) = end_sp"
  by (induction xs arbitrary: h) (auto split: if_splits)

lemma traverse_chain:
  "is_chain (H p) h xs \<Longrightarrow>
   traverse H \<lparr>current = h, pool_ptr = p\<rparr> \<lparr>current = end_sp, pool_ptr = q\<rparr> acc =
     Some (Inr (acc @ map (value_at (H p)) xs))"
proof (induction xs arbitrary: h acc)
  case Nil
  then show ?case
    by (subst traverse.simps) (simp add: it_neq_def it_eq_def)
next
  case (Cons x xs)
  from Cons.prems have x: "h = x" "x \<noteq> 0" "x \<noteq> end_sp" "x \<le> length (pool (H p))"
    and rest: "is_chain (H p) (node_next (pool (H p) ! (x - 1))) xs"
    by (simp_all add: end_sp_def)
  from rest have "traverse H \<lparr>current = node_next (pool (H p) ! (x - 1)), pool_ptr = p\<rparr>
      \<lparr>current = end_sp, pool_ptr = q\<rparr> (acc @ [value_at (H p) x]) =
      Some (Inr ((acc @ [value_at (H p) x]) @ map (value_at (H p)) xs))"
    by (rule Cons.IH)
  with x show ?case
    by (subst traverse.simps)
      (simp add: it_neq_def it_eq_def it_deref_def it_incr_def value_sp_inside next_sp_inside)
qed

lemma stack_values_chain:
  "is_chain s h xs \<Longrightarrow> stack_values s h = Some (Inr (map (value_at s) xs))"
  using traverse_chain [of "\<lambda>_. s" "()" h xs "()" "[]"]
  by (simp add: stack_values_def begin_sp_def end_it_def iterator_ctor_def)

lemma get_last_chain:
  "is_chain s h xs \<Longrightarrow> xs \<noteq> [] \<Longrightarrow> get_last h s = Some (Inr (last xs))"
  by (simp add: get_last_def begin_sp_def iterator_ctor_def get_last_loop_chain)

lemma free_stack_chain:
  assumes chain: "is_chain s h xs" and ne: "xs \<noteq> []"
  shows "free_stack h s =
           Some (Inr end_sp,
             s\<lparr>pool := (pool s)[last xs - 1 :=
                            (pool s ! (last xs - 1))\<lparr>node_next := free_nodes s\<rparr>],
               free_nodes := h\<rparr>)"
proof -
  from assms have h: "h \<noteq> end_sp" by (cases xs) auto
  from ne have "last xs \<in> set xs" by simp
  with chain have "last xs \<noteq> 0" "last xs \<le> length (pool s)"
    by (auto dest: is_chain_inside)
  with h get_last_chain [OF assms] show ?thesis
    by (simp add: free_stack_def empty_sp_def set_next_inside)
qed

lemma free_stack_sentinel: "free_stack end_sp s = Some (Inr end_sp, s)"
  by (simp add: free_stack_def empty_sp_def)

subsection \<open>One push, and sequences of them\<close>

lemma push_step:
  assumes free: "is_chain s (free_nodes s) fs"
    and room: "fs = [] \<Longrightarrow> Suc (length (pool s)) < 2 ^ w"
  shows "\<exists>k s'. push w g v h s = (Inr k, s') \<and>
           is_chain s' (free_nodes s') (tl fs) \<and>
           k \<notin> set (tl fs) \<and> k \<noteq> 0 \<and> k \<le> length (pool s') \<and>
           pool s' ! (k - 1) = \<lparr>node_value = v, node_next = h\<rparr> \<and>
           length (pool s) \<le> length (pool s') \<and>
           (\<forall>x. x \<noteq> 0 \<and> x \<le> length (pool s) \<and> x \<noteq> k \<longrightarrow>
                pool s' ! (x - 1) = pool s ! (x - 1)) \<and>
           (if fs = [] then k = Suc (length (pool s)) \<and> length (pool s') = Suc (length (pool s))
            else k = hd fs \<and> length (pool s') = length (pool s) \<and>
                 pool_capacity s' = pool_capacity s)"
proof (cases fs)
  case Nil
  with free have f0: "free_nodes s = 0" by (simp add: end_sp_def)
  let ?s' = "push_back g \<lparr>node_value = v, node_next = h\<rparr> s"
  have "push w g v h s = (Inr (Suc (length (pool s))), ?s')"
    using f0 room [OF Nil] by (rule push_grow_small)
  moreover have "is_chain ?s' (free_nodes ?s') (tl fs)"
    using Nil f0 by (simp add: push_back_free_nodes end_sp_def)
  moreover have "\<forall>x. x \<noteq> 0 \<and> x \<le> length (pool s) \<and> x \<noteq> Suc (length (pool s)) \<longrightarrow>
      pool ?s' ! (x - 1) = pool s ! (x - 1)"
    by (auto simp: push_back_pool nth_append)
  ultimately show ?thesis
    using Nil by (simp add: push_back_pool)
next
  case (Cons f fs')
  with free have f: "free_nodes s = f" "f \<noteq> 0" "f \<le> length (pool s)"
    and rest: "is_chain s (node_next (pool s ! (f - 1))) fs'"
    by (simp_all add: end_sp_def)
  from free Cons have "is_chain s (free_nodes s) (f # fs')" by simp
  then have fresh: "f \<notin> set fs'"
    by (rule is_chain_head_fresh)
  let ?s' = "s\<lparr>pool := (pool s)[f - 1 := \<lparr>node_value = v, node_next = h\<rparr>],
        free_nodes := node_next (pool s ! (f - 1))\<rparr>"
  from f have idx: "f - 1 < length (pool s)" by arith
  have push: "push w g v h s = (Inr f, ?s')"
    using push_reuse [of s w g v h] f by simp
  have other: "pool ?s' ! (x - 1) = pool s ! (x - 1)" if "x \<noteq> 0" "x \<noteq> f" for x
  proof -
    from that f have "f - 1 \<noteq> x - 1" by arith
    then show ?thesis by simp
  qed
  have "is_chain ?s' (node_next (pool s ! (f - 1))) fs'"
  proof (rule is_chain_frame [OF rest])
    show "length (pool s) \<le> length (pool ?s')" by simp
  next
    fix x assume x: "x \<in> set fs'"
    with rest have "x \<noteq> 0" by (auto dest: is_chain_inside)
    moreover from x fresh have "x \<noteq> f" by auto
    ultimately have "pool ?s' ! (x - 1) = pool s ! (x - 1)"
      by (rule other)
    then show "node_next (pool ?s' ! (x - 1)) = node_next (pool s ! (x - 1))"
      by (rule arg_cong)
  qed
  then have "is_chain ?s' (free_nodes ?s') (tl fs)"
    using Cons by simp
  moreover have "pool ?s' ! (f - 1) = \<lparr>node_value = v, node_next = h\<rparr>"
    using idx by simp
  moreover have "\<forall>x. x \<noteq> 0 \<and> x \<le> length (pool s) \<and> x \<noteq> f \<longrightarrow>
      pool ?s' ! (x - 1) = pool s ! (x - 1)"
    using other by blast
  ultimately show ?thesis
    using push f fresh Cons by simp
qed

lemma push_onto_chain:
  assumes free: "is_chain s (free_nodes s) fs"
    and stack: "is_chain s h hs"
    and disj: "set hs \<inter> set fs = {}"
    and room: "fs = [] \<Longrightarrow> Suc (length (pool s)) < 2 ^ w"
  shows "\<exists>k s'. push w g v h s = (Inr k, s') \<and>
           is_chain s' (free_nodes s') (tl fs) \<and>
           is_chain s' k (k # hs) \<and> set (k # hs) \<inter> set (tl fs) = {} \<and>
           value_at s' k = v \<and> map (value_at s') hs = map (value_at s) hs \<and>
           length (pool s') = (if fs = [] then Suc (length (pool s)) else length (pool s))"
proof -
  from push_step [OF free room, of g v h] obtain k s' where
    push: "push w g v h s = (Inr k, s')"
    and free': "is_chain s' (free_nodes s') (tl fs)"
    and k: "k \<notin> set (tl fs)" "k \<noteq> 0" "k \<le> length (pool s')"
    and top: "pool s' ! (k - 1) = \<lparr>node_value = v, node_next = h\<rparr>"
    and len: "length (pool s) \<le> length (pool s')"
    and other: "\<forall>x. x \<noteq> 0 \<and> x \<le> length (pool s) \<and> x \<noteq> k \<longrightarrow>
                pool s' ! (x - 1) = pool s ! (x - 1)"
    and which: "if fs = [] then k = Suc (length (pool s)) \<and> length (pool s') = Suc (length (pool s))
            else k = hd fs \<and> length (pool s') = length (pool s) \<and>
                 pool_capacity s' = pool_capacity s"
    by blast
  have inside: "x \<noteq> 0 \<and> x \<le> length (pool s)" if "x \<in> set hs" for x
    using stack that by (rule is_chain_inside)
  have notk: "x \<noteq> k" if x: "x \<in> set hs" for x
  proof (cases "fs = []")
    case True
    with which inside [OF x] show ?thesis by simp
  next
    case False
    with which have "k \<in> set fs" by simp
    with disj x show ?thesis by auto
  qed
  have same: "pool s' ! (x - 1) = pool s ! (x - 1)" if x: "x \<in> set hs" for x
    using other inside [OF x] notk [OF x] by simp
  have "is_chain s' h hs"
    using stack len by (rule is_chain_frame) (simp only: same)
  with k top have chain': "is_chain s' k (k # hs)"
    by (simp add: end_sp_def)
  have "set hs \<inter> set (tl fs) = {}"
    using disj by (cases fs) auto
  with k have disj': "set (k # hs) \<inter> set (tl fs) = {}" by simp
  have "map (value_at s') hs = map (value_at s) hs"
    by (rule map_cong [OF refl]) (simp only: value_at_def same)
  moreover from which
  have "length (pool s') = (if fs = [] then Suc (length (pool s)) else length (pool s))"
    by (simp split: if_splits)
  ultimately show ?thesis
    using push free' chain' disj' top by (simp add: value_at_def)
qed

lemma push_all_chain:
  assumes "is_chain s (free_nodes s) fs"
    and "is_chain s h hs"
    and "set hs \<inter> set fs = {}"
    and "length (pool s) + (length vs - length fs) < 2 ^ w"
  shows "\<exists>hn s' ks. push_all w g vs h s = (Inr hn, s') \<and> is_chain s' hn (ks @ hs) \<and>
           length ks = length vs \<and>
           map (value_at s') (ks @ hs) = rev vs @ map (value_at s) hs"
  using assms
proof (induction vs arbitrary: s h hs fs)
  case Nil
  then show ?case by simp
next
  case (Cons v vs)
  note bound = \<open>length (pool s) + (length (v # vs) - length fs) < 2 ^ w\<close>
  have room: "Suc (length (pool s)) < 2 ^ w" if "fs = []"
    using bound that by simp
  from push_onto_chain [OF Cons.prems(1-3) room, of g v] obtain k s1 where
    push: "push w g v h s = (Inr k, s1)"
    and free1: "is_chain s1 (free_nodes s1) (tl fs)"
    and chain1: "is_chain s1 k (k # hs)"
    and disj1: "set (k # hs) \<inter> set (tl fs) = {}"
    and val: "value_at s1 k = v" "map (value_at s1) hs = map (value_at s) hs"
    and len1: "length (pool s1) = (if fs = [] then Suc (length (pool s)) else length (pool s))"
    by blast
  have bound1: "length (pool s1) + (length vs - length (tl fs)) < 2 ^ w"
  proof (cases fs)
    case Nil
    with bound len1 show ?thesis by simp
  next
    case (Cons f fs')
    then have "length vs - length (tl fs) = length (v # vs) - length fs" by simp
    with bound len1 Cons show ?thesis by simp
  qed
  from Cons.IH [OF free1 chain1 disj1 bound1] obtain hn s' ks where
    run: "push_all w g vs k s1 = (Inr hn, s')"
    and chain': "is_chain s' hn (ks @ k # hs)"
    and len: "length ks = length vs"
    and vals: "map (value_at s') (ks @ k # hs) = rev vs @ map (value_at s1) (k # hs)"
    by blast
  from push run have "push_all w g (v # vs) h s = (Inr hn, s')" by simp
  moreover from chain' have "is_chain s' hn ((ks @ [k]) @ hs)" by simp
  moreover from len have "length (ks @ [k]) = length (v # vs)" by simp
  moreover from vals val
  have "map (value_at s') ((ks @ [k]) @ hs) = rev (v # vs) @ map (value_at s) hs"
    by simp
  ultimately show ?case by blast
qed

lemma push_each_reuse:
  assumes "is_chain s (free_nodes s) fs" and "length cs \<le> length fs"
  shows "\<exists>ks s'. push_each w g cs s = (Inr ks, s') \<and> ks = take (length cs) fs \<and>
           length (pool s') = length (pool s) \<and> pool_capacity s' = pool_capacity s \<and>
           is_chain s' (free_nodes s') (drop (length cs) fs)"
  using assms
proof (induction cs arbitrary: s fs)
  case Nil
  then show ?case by simp
next
  case (Cons c cs)
  obtain v h where c: "c = (v, h)" by (cases c)
  from Cons.prems obtain f fs' where fs: "fs = f # fs'" by (cases fs) auto
  from fs have "fs = [] \<Longrightarrow> Suc (length (pool s)) < 2 ^ w" by simp
  from push_step [OF Cons.prems(1) this, of g v h] fs obtain s1 where
    push: "push w g v h s = (Inr f, s1)"
    and free1: "is_chain s1 (free_nodes s1) fs'"
    and same: "length (pool s1) = length (pool s)" "pool_capacity s1 = pool_capacity s"
    by auto
  from Cons.prems fs have "length cs \<le> length fs'" by simp
  from Cons.IH [OF free1 this] obtain ks s' where
    run: "push_each w g cs s1 = (Inr ks, s')"
    and ks: "ks = take (length cs) fs'"
    and same': "length (pool s') = length (pool s1)" "pool_capacity s' = pool_capacity s1"
    and free': "is_chain s' (free_nodes s') (drop (length cs) fs')"
    by blast
  from push run c have "push_each w g (c # cs) s = (Inr (f # ks), s')" by simp
  with ks same same' free' fs show ?case by simp
qed

subsection \<open>Pushes that only grow the vector\<close>

lemma push_all_grows:
  assumes "free_nodes s = 0"
  shows "free_nodes (snd (push_all w g vs h s)) = 0 \<and>
         length (pool (snd (push_all w g vs h s))) = length (pool s) + length vs \<and>
         fst (push_all w g vs h s) =
           Inr (if vs = [] then h else to_stack_type w (length (pool s) + length vs))"
  using assms
proof (induction vs arbitrary: s h)
  case Nil
  then show ?case by simp
next
  case (Cons v vs)
  let ?s1 = "push_back g \<lparr>node_value = v, node_next = h\<rparr> s"
  let ?k = "to_stack_type w (Suc (length (pool s)))"
  from Cons.prems have push: "push w g v h s = (Inr ?k, ?s1)"
    by (rule push_grow)
  from Cons.prems have free1: "free_nodes ?s1 = 0"
    by (simp add: push_back_free_nodes)
  have len1: "length (pool ?s1) = Suc (length (pool s))"
    by (simp add: push_back_pool)
  from Cons.IH [OF free1, of ?k] push len1 show ?case
    by simp
qed

lemma full_stack_free: "free_nodes full_stack = 0"
proof -
  have "free_nodes (stack_pool_ctor 0 :: nat stack_pool) = 0"
    by (simp add: stack_pool_ctor_def reserve_def new_stack_def end_sp_def)
  from push_all_grows [OF this] show ?thesis
    by (simp add: full_stack_def)
qed

lemma full_stack_length: "length (pool full_stack) = 255"
proof -
  have "free_nodes (stack_pool_ctor 0 :: nat stack_pool) = 0"
    by (simp add: stack_pool_ctor_def reserve_def new_stack_def end_sp_def)
  from push_all_grows [OF this, of 8 doubling "[0..<255]" end_sp] show ?thesis
    by (simp add: full_stack_def stack_pool_ctor_def reserve_def)
qed

lemma stack_values_sentinel: "stack_values s end_sp = Some (Inr [])"
  by (simp add: stack_values_def traverse.simps begin_sp_def end_it_def iterator_ctor_def
      it_neq_def it_eq_def)

subsection \<open>Running the calls on the sample pools\<close>

lemmas push_eval = push_def push_impl_def empty_sp_def end_sp_def
  push_back_def Let_def to_stack_type_def stack_pool_ctor_def reserve_def new_stack_def
  set_value_def AP_ERROR_def node_def move_head_def next_sp_def set_next_def doubling_def

lemma two_stacks_eq:
  "two_stacks =
     \<lparr>pool = [\<lparr>node_value = 10, node_next = 0\<rparr>, \<lparr>node_value = 20, node_next = 1\<rparr>,
              \<lparr>node_value = 30, node_next = 2\<rparr>, \<lparr>node_value = 40, node_next = 0\<rparr>,
              \<lparr>node_value = 50, node_next = 4\<rparr>],
      pool_capacity = 8, free_nodes = 0\<rparr>"
  by (simp add: two_stacks_def push_eval)

section \<open>Properties of the operations\<close>

text \<open>
  C1, as the claim states it, fails where the handle type is too narrow for the new size. With
  8-bit handles and 255 nodes, all of them on one stack whose head is 255, \<^verbatim>\<open>push(7, 255)\<close>
  appends node 256 and returns 256 converted to 8 bits, the sentinel; \<^verbatim>\<open>pop\<close> of it fails its
  check and does not return 255.
\<close>

theorem pop_after_wrapped_push:
  "fst (push_all 8 doubling [0..<255] end_sp (stack_pool_ctor 0)) = Inr 255 \<and>
   free_nodes full_stack = end_sp \<and> length (pool full_stack) = 255 \<and>
   fst (push 8 doubling 7 255 full_stack) = Inr end_sp \<and>
   fst (pop end_sp (snd (push 8 doubling 7 255 full_stack))) = Inl (AP_error pop_msg)"
proof -
  have start: "free_nodes (stack_pool_ctor 0 :: nat stack_pool) = 0"
    by (simp add: stack_pool_ctor_def reserve_def new_stack_def end_sp_def)
  have "fst (push_all 8 doubling [0..<255] end_sp (stack_pool_ctor 0)) = Inr 255"
    using push_all_grows [OF start, of 8 doubling "[0..<255]" end_sp]
    by (simp add: stack_pool_ctor_def reserve_def to_stack_type_def)
  moreover have "fst (push 8 doubling 7 255 full_stack) = Inr end_sp"
    by (simp add: push_grow full_stack_free full_stack_length to_stack_type_def end_sp_def)
  moreover have "fst (pop end_sp (snd (push 8 doubling 7 255 full_stack))) =
      Inl (AP_error pop_msg)"
    by (simp add: pop_def AP_ERROR_def empty_sp_def)
  ultimately show ?thesis
    by (simp add: full_stack_free full_stack_length end_sp_def)
qed

text \<open>
  C1, amended. In a pool whose free-list head is the sentinel or a node of the vector, and
  whose vector, when the free list is empty, has room for one more node within the handle
  type (the new size is less than \<open>2 ^ w\<close>), \<^verbatim>\<open>push(v, h)\<close> returns a handle \<open>k\<close> and \<^verbatim>\<open>pop(k)\<close>
  returns \<open>h\<close>, for every value and every head. After the two calls the node \<open>k\<close> is the head
  of the free list, in front of the free list the \<^verbatim>\<open>pop\<close> found, and still holds \<open>v\<close>; and for
  a valid head \<open>h\<close>, the sentinel or a node of the vector that is not the free-list head,
  \<^verbatim>\<open>value(h)\<close> is what it was before the two calls.
\<close>

theorem pop_undoes_push:
  assumes inv: "free_nodes s \<le> length (pool s)"
    and room: "empty_sp (free_nodes s) \<Longrightarrow> Suc (length (pool s)) < 2 ^ w"
  shows "\<exists>k s1 s2.
           push w g v h s = (Inr k, s1) \<and> pop k s1 = (Inr h, s2) \<and>
           free_nodes s2 = k \<and> next_sp k s2 = Inr (free_nodes s1) \<and> value_sp k s2 = Inr v \<and>
           (h = end_sp \<or> (h \<le> length (pool s) \<and> h \<noteq> free_nodes s) \<longrightarrow>
              value_sp h s2 = value_sp h s)"
proof (cases "free_nodes s = 0")
  case True
  let ?k = "Suc (length (pool s))"
  let ?s1 = "push_back g \<lparr>node_value = v, node_next = h\<rparr> s"
  let ?s2 = "?s1\<lparr>pool := (pool ?s1)[?k - 1 := (pool ?s1 ! (?k - 1))\<lparr>node_next := free_nodes ?s1\<rparr>],
        free_nodes := ?k\<rparr>"
  from True have "Suc (length (pool s)) < 2 ^ w"
    by (simp add: room empty_sp_def end_sp_def)
  with True have push: "push w g v h s = (Inr ?k, ?s1)"
    by (rule push_grow_small)
  have len: "length (pool ?s1) = ?k"
    by (simp add: push_back_pool)
  have top: "pool ?s1 ! (?k - 1) = \<lparr>node_value = v, node_next = h\<rparr>"
    by (simp add: push_back_pool)
  have "pop ?k ?s1 = (Inr (node_next (pool ?s1 ! (?k - 1))), ?s2)"
    by (rule pop_inside) (simp_all add: len)
  then have pop: "pop ?k ?s1 = (Inr h, ?s2)"
    by (simp only: top) simp
  have fr: "free_nodes ?s2 = ?k" by simp
  have len2: "length (pool ?s2) = ?k" by (simp add: push_back_pool)
  have nx: "next_sp ?k ?s2 = Inr (free_nodes ?s1)"
    by (simp add: next_sp_inside push_back_pool push_back_free_nodes)
  have vl: "value_sp ?k ?s2 = Inr v"
    by (simp add: value_sp_inside value_at_def push_back_pool)
  have old: "value_sp h ?s2 = value_sp h s"
    if "h = end_sp \<or> (h \<le> length (pool s) \<and> h \<noteq> free_nodes s)"
  proof (cases "h = 0")
    case True
    then show ?thesis by (simp add: value_sp_def AP_ERROR_def empty_sp_def end_sp_def)
  next
    case False
    with that have h: "h \<noteq> 0" "h \<le> length (pool s)" by (simp_all add: end_sp_def)
    then have "value_sp h ?s2 = Inr (value_at ?s2 h)" "value_sp h s = Inr (value_at s h)"
      by (simp_all add: value_sp_inside push_back_pool)
    moreover from h have "h - 1 < length (pool s)" by arith
    then have "value_at ?s2 h = value_at s h"
      by (simp add: value_at_def push_back_pool nth_append)
    ultimately show ?thesis by simp
  qed
  from push pop fr nx vl old show ?thesis by blast
next
  case False
  let ?f = "free_nodes s"
  let ?s1 = "s\<lparr>pool := (pool s)[?f - 1 := \<lparr>node_value = v, node_next = h\<rparr>],
        free_nodes := node_next (pool s ! (?f - 1))\<rparr>"
  let ?s2 = "?s1\<lparr>pool := (pool ?s1)[?f - 1 := (pool ?s1 ! (?f - 1))\<lparr>node_next := free_nodes ?s1\<rparr>],
        free_nodes := ?f\<rparr>"
  from False inv have idx: "?f - 1 < length (pool s)" by arith
  have push: "push w g v h s = (Inr ?f, ?s1)"
    using False inv by (rule push_reuse)
  have top: "pool ?s1 ! (?f - 1) = \<lparr>node_value = v, node_next = h\<rparr>"
    using idx by simp
  have "pop ?f ?s1 = (Inr (node_next (pool ?s1 ! (?f - 1))), ?s2)"
    by (rule pop_inside) (use False inv in simp_all)
  then have pop: "pop ?f ?s1 = (Inr h, ?s2)"
    by (simp only: top) simp
  have fr: "free_nodes ?s2 = ?f" by simp
  have len2: "length (pool ?s2) = length (pool s)" by simp
  have nx: "next_sp ?f ?s2 = Inr (free_nodes ?s1)"
    using False inv idx by (simp add: next_sp_inside)
  have vl: "value_sp ?f ?s2 = Inr v"
    using False inv idx by (simp add: value_sp_inside) (simp add: value_at_def)
  have old: "value_sp h ?s2 = value_sp h s"
    if "h = end_sp \<or> (h \<le> length (pool s) \<and> h \<noteq> free_nodes s)"
  proof (cases "h = 0")
    case True
    then show ?thesis by (simp add: value_sp_def AP_ERROR_def empty_sp_def end_sp_def)
  next
    case False
    with that have h: "h \<noteq> 0" "h \<le> length (pool s)" "h \<noteq> ?f" by (simp_all add: end_sp_def)
    then have "value_sp h ?s2 = Inr (value_at ?s2 h)" "value_sp h s = Inr (value_at s h)"
      by (simp_all add: value_sp_inside)
    moreover from h \<open>?f \<noteq> 0\<close> have "?f - 1 \<noteq> h - 1" by arith
    then have "value_at ?s2 h = value_at s h"
      by (simp add: value_at_def)
    ultimately show ?thesis by simp
  qed
  from push pop fr nx vl old show ?thesis by blast
qed

theorem pop_undoes_push_witness:
  "(free_nodes one_free \<le> length (pool one_free) \<and>
    \<not> empty_sp (free_nodes one_free) \<and>
    1 \<le> length (pool one_free) \<and> 1 \<noteq> free_nodes one_free \<and>
    (\<exists>s1 s2. push 64 doubling 30 1 one_free = (Inr 2, s1) \<and> pop 2 s1 = (Inr 1, s2) \<and>
       free_nodes s2 = 2 \<and> value_sp 2 s2 = Inr 30 \<and>
       value_sp 1 s2 = Inr 10 \<and> value_sp 1 one_free = Inr 10)) \<and>
   (free_nodes two_stacks \<le> length (pool two_stacks) \<and>
    empty_sp (free_nodes two_stacks) \<and> Suc (length (pool two_stacks)) < 2 ^ 64 \<and>
    5 \<le> length (pool two_stacks) \<and> 5 \<noteq> free_nodes two_stacks \<and>
    (\<exists>s1 s2. push 64 doubling 60 5 two_stacks = (Inr 6, s1) \<and> pop 6 s1 = (Inr 5, s2) \<and>
       free_nodes s2 = 6 \<and> value_sp 6 s2 = Inr 60 \<and>
       value_sp 5 s2 = Inr 50 \<and> value_sp 5 two_stacks = Inr 50))"
proof (rule conjI)
  have inv: "free_nodes one_free \<le> length (pool one_free)"
    by (simp add: one_free_def)
  have room: "empty_sp (free_nodes one_free) \<Longrightarrow> Suc (length (pool one_free)) < 2 ^ 64"
    by (simp add: one_free_def)
  have push: "fst (push 64 doubling 30 1 one_free) = Inr 2"
    by (simp add: push_eval one_free_def)
  have val: "value_sp 1 one_free = Inr 10"
    by code_simp
  from pop_undoes_push [OF inv room, where g = doubling and v = 30 and h = 1] push val inv
  show "free_nodes one_free \<le> length (pool one_free) \<and>
    \<not> empty_sp (free_nodes one_free) \<and>
    1 \<le> length (pool one_free) \<and> 1 \<noteq> free_nodes one_free \<and>
    (\<exists>s1 s2. push 64 doubling 30 1 one_free = (Inr 2, s1) \<and> pop 2 s1 = (Inr 1, s2) \<and>
       free_nodes s2 = 2 \<and> value_sp 2 s2 = Inr 30 \<and>
       value_sp 1 s2 = Inr 10 \<and> value_sp 1 one_free = Inr 10)"
    by (auto simp: one_free_def end_sp_def empty_sp_def)
next
  have inv: "free_nodes two_stacks \<le> length (pool two_stacks)"
    by (simp add: two_stacks_eq)
  have len: "Suc (length (pool two_stacks)) < 2 ^ 64"
    by (simp add: two_stacks_eq)
  have push: "fst (push 64 doubling 60 5 two_stacks) = Inr 6"
    by (simp add: push_eval two_stacks_eq)
  have val: "value_sp 5 two_stacks = Inr 50"
    unfolding two_stacks_eq by code_simp
  from pop_undoes_push [OF inv len, where g = doubling and v = 60 and h = 5] push val inv len
  show "free_nodes two_stacks \<le> length (pool two_stacks) \<and>
    empty_sp (free_nodes two_stacks) \<and> Suc (length (pool two_stacks)) < 2 ^ 64 \<and>
    5 \<le> length (pool two_stacks) \<and> 5 \<noteq> free_nodes two_stacks \<and>
    (\<exists>s1 s2. push 64 doubling 60 5 two_stacks = (Inr 6, s1) \<and> pop 6 s1 = (Inr 5, s2) \<and>
       free_nodes s2 = 6 \<and> value_sp 6 s2 = Inr 60 \<and>
       value_sp 5 s2 = Inr 50 \<and> value_sp 5 two_stacks = Inr 50)"
    by (auto simp: two_stacks_eq end_sp_def empty_sp_def)
qed

text \<open>
  C2, as the claim states it, fails once the pushes outgrow the handle type. With 8-bit
  handles, 256 values pushed one after the other onto one stack of a pool that starts empty
  end with the sentinel as the head returned, and the loop from it visits no element at all.
\<close>

theorem wrapped_pushes_lose_stack:
  "fst (push_all 8 doubling [0..<256] end_sp (stack_pool_ctor 0)) = Inr end_sp \<and>
   stack_values (snd (push_all 8 doubling [0..<256] end_sp (stack_pool_ctor 0))) end_sp =
     Some (Inr []) \<and>
   length (rev [0..<256]) = 256"
proof -
  have start: "free_nodes (stack_pool_ctor 0 :: nat stack_pool) = 0"
    by (simp add: stack_pool_ctor_def reserve_def new_stack_def end_sp_def)
  have "fst (push_all 8 doubling [0..<256] end_sp (stack_pool_ctor 0)) = Inr end_sp"
    using push_all_grows [OF start, of 8 doubling "[0..<256]" end_sp]
    by (simp add: stack_pool_ctor_def reserve_def to_stack_type_def end_sp_def)
  then show ?thesis
    by (simp add: stack_values_sentinel)
qed

text \<open>
  C2, amended. In a pool whose free list is a chain, pushing the values \<open>vs\<close> one after the
  other, the first onto the sentinel and each of the others onto the head returned before,
  returns every time, provided the size of the vector plus the number of pushes the free list
  cannot serve stays below \<open>2 ^ w\<close>. The loop over the stack of the last head returned then
  collects the values in reverse order of the pushes: the stack is a chain of exactly as many
  nodes as there were pushes, and then the sentinel.
\<close>

theorem iteration_reverses_pushes:
  assumes "is_chain s (free_nodes s) fs"
    and "length (pool s) + (length vs - length fs) < 2 ^ w"
  shows "\<exists>hn s' ks. push_all w g vs end_sp s = (Inr hn, s') \<and>
           stack_values s' hn = Some (Inr (rev vs)) \<and>
           is_chain s' hn ks \<and> length ks = length vs"
proof -
  have "is_chain s end_sp []" by simp
  from push_all_chain [OF assms(1) this _ assms(2), where g = g] obtain hn s' ks where
    run: "push_all w g vs end_sp s = (Inr hn, s')"
    and chain: "is_chain s' hn ks"
    and len: "length ks = length vs"
    and vals: "map (value_at s') ks = rev vs"
    by auto
  from chain have "stack_values s' hn = Some (Inr (map (value_at s') ks))"
    by (rule stack_values_chain)
  with run chain len vals show ?thesis by auto
qed

theorem iteration_reverses_pushes_witness:
  "is_chain three_pushed (free_nodes three_pushed) [5, 4] \<and>
   length (pool three_pushed) + (length [1, 2, 3 :: nat] - length [5, 4 :: nat]) < 2 ^ 64 \<and>
   (\<exists>s'. push_all 64 doubling [1, 2, 3] end_sp three_pushed = (Inr 6, s') \<and>
      stack_values s' 6 = Some (Inr [3, 2, 1]) \<and> is_chain s' 6 [6, 4, 5])"
proof -
  have free: "is_chain three_pushed (free_nodes three_pushed) [5, 4]"
    by (simp add: three_pushed_def end_sp_def)
  have bound: "length (pool three_pushed) + (length [1, 2, 3 :: nat] - length [5, 4 :: nat])
      < 2 ^ 64"
    by (simp add: three_pushed_def)
  have run: "fst (push_all 64 doubling [1, 2, 3] end_sp three_pushed) = Inr 6"
    by (simp add: push_eval three_pushed_def)
  have chain: "is_chain (snd (push_all 64 doubling [1, 2, 3] end_sp three_pushed)) 6 [6, 4, 5]"
    by (simp add: push_eval three_pushed_def)
  from iteration_reverses_pushes [OF free bound, where g = doubling] run chain free bound
  show ?thesis by auto
qed

text \<open>
  C3. In a pool of \<open>c\<close> nodes that are all on the free list, any \<open>c\<close> calls of \<^verbatim>\<open>push\<close> or
  fewer, with any values and heads, all return and leave the capacity and the size of the
  vector as they were. In any pool \<open>t\<close>, a call of \<^verbatim>\<open>push\<close> makes the vector one node longer
  when the free list is empty and leaves its length alone otherwise.
\<close>

theorem freed_nodes_reused_first:
  assumes "is_chain s (free_nodes s) fs"
    and "length fs = length (pool s)"
    and "length cs \<le> length (pool s)"
  shows "(\<exists>ks s'. push_each w g cs s = (Inr ks, s') \<and> capacity s' = capacity s \<and>
            length (pool s') = length (pool s)) \<and>
         length (pool (snd (push w g v h t))) =
           (if empty_sp (free_nodes t) then Suc (length (pool t)) else length (pool t)) \<and>
         (\<not> empty_sp (free_nodes t) \<longrightarrow> capacity (snd (push w g v h t)) = capacity t)"
proof (intro conjI)
  from assms have "length cs \<le> length fs" by simp
  from push_each_reuse [OF assms(1) this, where w = w and g = g]
  show "\<exists>ks s'. push_each w g cs s = (Inr ks, s') \<and> capacity s' = capacity s \<and>
            length (pool s') = length (pool s)"
    by (auto simp: capacity_def)
next
  show "length (pool (snd (push w g v h t))) =
           (if empty_sp (free_nodes t) then Suc (length (pool t)) else length (pool t))"
  proof (cases "free_nodes t = 0")
    case True
    then show ?thesis
      by (simp add: push_grow push_back_pool empty_sp_def end_sp_def)
  next
    case False
    show ?thesis
    proof (cases "free_nodes t \<le> length (pool t)")
      case True
      with False show ?thesis
        by (simp add: push_reuse empty_sp_def end_sp_def)
    next
      case False
      then show ?thesis
        by (simp add: push_outside empty_sp_def end_sp_def)
    qed
  qed
next
  show "\<not> empty_sp (free_nodes t) \<longrightarrow> capacity (snd (push w g v h t)) = capacity t"
  proof (cases "free_nodes t \<le> length (pool t)")
    case True
    then show ?thesis
      by (simp add: push_reuse empty_sp_def end_sp_def capacity_def)
  next
    case False
    then show ?thesis
      by (simp add: push_outside)
  qed
qed

theorem freed_nodes_reused_first_witness:
  "is_chain all_freed (free_nodes all_freed) [3, 2, 1] \<and>
   length [3, 2, 1 :: nat] = length (pool all_freed) \<and>
   length [(1, 0), (2, 3), (3 :: nat, 0 :: nat)] \<le> length (pool all_freed) \<and>
   (\<exists>s'. push_each 64 doubling [(1, 0), (2, 3), (3, 0)] all_freed = (Inr [3, 2, 1], s') \<and>
      capacity s' = 4 \<and> capacity all_freed = 4 \<and> length (pool s') = 3)"
proof -
  have free: "is_chain all_freed (free_nodes all_freed) [3, 2, 1]"
    by (simp add: all_freed_def end_sp_def)
  have all: "length [3, 2, 1 :: nat] = length (pool all_freed)"
    by (simp add: all_freed_def)
  have n: "length [(1, 0), (2, 3), (3 :: nat, 0 :: nat)] \<le> length (pool all_freed)"
    by (simp add: all_freed_def)
  have run: "fst (push_each 64 doubling [(1, 0), (2, 3), (3, 0)] all_freed) = Inr [3, 2, 1]"
    by (simp add: push_eval all_freed_def)
  have cap: "capacity all_freed = 4" "length (pool all_freed) = 3"
    by (simp_all add: all_freed_def capacity_def)
  from freed_nodes_reused_first [OF free all n, where w = 64 and g = doubling and v = 0 and h = 0 and t = all_freed]
  obtain ks s' where r: "push_each 64 doubling [(1, 0), (2, 3), (3, 0)] all_freed = (Inr ks, s')"
    and same: "capacity s' = capacity all_freed" "length (pool s') = length (pool all_freed)"
    by blast
  from run have "ks = [3, 2, 1]"
    unfolding r by simp
  with r same cap have "push_each 64 doubling [(1, 0), (2, 3), (3, 0)] all_freed = (Inr [3, 2, 1], s') \<and>
      capacity s' = 4 \<and> capacity all_freed = 4 \<and> length (pool s') = 3"
    by (simp only: simp_thms)
  then have "\<exists>s'. push_each 64 doubling [(1, 0), (2, 3), (3, 0)] all_freed = (Inr [3, 2, 1], s') \<and>
      capacity s' = 4 \<and> capacity all_freed = 4 \<and> length (pool s') = 3" ..
  with free all n show ?thesis by (simp only: simp_thms)
qed

text \<open>
  C4. On an empty stack \<^verbatim>\<open>free_stack\<close> returns the sentinel and the pool as it was. On a
  stack with the nodes \<open>xs\<close> it finds the tail \<open>last xs\<close>, the node whose \<^verbatim>\<open>next\<close> is the
  sentinel, sets the \<^verbatim>\<open>next\<close> of that tail to the free-list head, makes \<open>h\<close> the free-list
  head, changes nothing else, and returns the sentinel.
\<close>

theorem free_stack_splices:
  assumes "is_chain s h xs"
  shows "free_stack h s =
           (if empty_sp h then Some (Inr end_sp, s)
            else Some (Inr end_sp,
                   s\<lparr>pool := (pool s)[last xs - 1 :=
                                  (pool s ! (last xs - 1))\<lparr>node_next := free_nodes s\<rparr>],
                     free_nodes := h\<rparr>)) \<and>
         (\<not> empty_sp h \<longrightarrow>
            get_last h s = Some (Inr (last xs)) \<and> next_sp (last xs) s = Inr end_sp)"
proof (cases "h = end_sp")
  case True
  then show ?thesis by (simp add: free_stack_sentinel empty_sp_def)
next
  case False
  with assms have ne: "xs \<noteq> []" by (cases xs) auto
  then have "last xs \<in> set xs" by simp
  with assms have tl: "last xs \<noteq> 0" "last xs \<le> length (pool s)"
    by (auto dest: is_chain_inside)
  from is_chain_last [OF assms ne] tl have "next_sp (last xs) s = Inr end_sp"
    by (simp add: next_sp_inside)
  with False free_stack_chain [OF assms ne] get_last_chain [OF assms ne] show ?thesis
    by (simp add: empty_sp_def)
qed

theorem free_stack_splices_witness:
  "is_chain three_pushed 3 [3, 2, 1] \<and> \<not> empty_sp 3 \<and>
   free_stack 3 three_pushed =
     Some (Inr end_sp,
       \<lparr>pool = [\<lparr>node_value = 10, node_next = 5\<rparr>, \<lparr>node_value = 20, node_next = 1\<rparr>,
                \<lparr>node_value = 30, node_next = 2\<rparr>, \<lparr>node_value = 40, node_next = 0\<rparr>,
                \<lparr>node_value = 50, node_next = 4\<rparr>],
         pool_capacity = 8, free_nodes = 3\<rparr>) \<and>
   get_last 3 three_pushed = Some (Inr 1) \<and> next_sp 1 three_pushed = Inr end_sp"
proof -
  have chain: "is_chain three_pushed 3 [3, 2, 1]"
    by (simp add: three_pushed_def end_sp_def)
  from free_stack_splices [OF chain] chain show ?thesis
    by (simp add: three_pushed_def empty_sp_def end_sp_def)
qed

text \<open>
  C5. Reading \<^verbatim>\<open>value\<close> on the sentinel, assigning through \<^verbatim>\<open>value\<close> on the sentinel, and
  \<^verbatim>\<open>pop\<close> on the sentinel each end in the failure of their own check, the one carrying the
  message of that call site. A failed check ends the operation, so it is the only failure of
  the call, and the pool at that moment is the pool the call received: neither the vector nor
  the free-list head has changed.
\<close>

theorem sentinel_check_fails:
  "value_sp end_sp s = Inl (AP_error value_msg) \<and>
   set_value end_sp v s = (Inl (AP_error value_msg), s) \<and>
   pop end_sp s = (Inl (AP_error pop_msg), s)"
  by (simp add: value_sp_def set_value_def pop_def AP_ERROR_def empty_sp_def)

text \<open>
  C6, as the claim states it, fails at the sentinel: \<^verbatim>\<open>new_stack()\<close> returns it, and
  \<^verbatim>\<open>next\<close> of it reads \<^verbatim>\<open>pool[0 - 1]\<close>, outside every vector.
\<close>

theorem next_sentinel_out_of_range:
  "new_stack = end_sp \<and>
   next_sp new_stack (stack_pool_ctor 0 :: nat stack_pool) = Inl Out_of_range"
  by (simp add: new_stack_def next_sp_def node_def end_sp_def)

text \<open>
  C6, amended. \<^verbatim>\<open>push\<close> returns a handle for every value and head in a pool whose
  free-list head is the sentinel or a node of the vector; \<^verbatim>\<open>begin\<close> builds its iterator for
  every handle; \<^verbatim>\<open>free_stack\<close> returns the sentinel for the sentinel and for the head of
  every chain; and \<^verbatim>\<open>next(h)\<close> has a result exactly when \<open>h\<close> is a node of the vector, which
  the sentinel is not.
\<close>

theorem total_on_valid_handles:
  "(free_nodes s \<le> length (pool s) \<longrightarrow> (\<exists>k s'. push w g v h s = (Inr k, s'))) \<and>
   begin_sp p h = \<lparr>current = h, pool_ptr = p\<rparr> \<and>
   free_stack end_sp s = Some (Inr end_sp, s) \<and>
   (is_chain s h xs \<longrightarrow> (\<exists>s'. free_stack h s = Some (Inr end_sp, s'))) \<and>
   ((\<exists>n. next_sp h s = Inr n) = (h \<noteq> end_sp \<and> h \<le> length (pool s)))"
proof (intro conjI impI)
  assume inv: "free_nodes s \<le> length (pool s)"
  show "\<exists>k s'. push w g v h s = (Inr k, s')"
  proof (cases "free_nodes s = 0")
    case True
    then show ?thesis by (simp add: push_grow)
  next
    case False
    with inv show ?thesis by (simp add: push_reuse)
  qed
next
  show "begin_sp p h = \<lparr>current = h, pool_ptr = p\<rparr>"
    by (simp add: begin_sp_def iterator_ctor_def)
next
  show "free_stack end_sp s = Some (Inr end_sp, s)"
    by (rule free_stack_sentinel)
next
  assume chain: "is_chain s h xs"
  show "\<exists>s'. free_stack h s = Some (Inr end_sp, s')"
  proof (cases xs)
    case Nil
    with chain show ?thesis by (simp add: free_stack_sentinel)
  next
    case (Cons y ys)
    then have "xs \<noteq> []" by simp
    with chain show ?thesis by (simp add: free_stack_chain)
  qed
next
  show "(\<exists>n. next_sp h s = Inr n) = (h \<noteq> end_sp \<and> h \<le> length (pool s))"
    by (auto simp: next_sp_def node_def end_sp_def)
qed

theorem total_on_valid_handles_witness:
  "free_nodes three_pushed \<le> length (pool three_pushed) \<and>
   is_chain three_pushed 3 [3, 2, 1] \<and>
   (\<exists>k s'. push 64 doubling 7 3 three_pushed = (Inr k, s')) \<and>
   (\<exists>s'. free_stack 3 three_pushed = Some (Inr end_sp, s')) \<and>
   (\<exists>n. next_sp 3 three_pushed = Inr n)"
proof -
  have inv: "free_nodes three_pushed \<le> length (pool three_pushed)"
    by (simp add: three_pushed_def)
  have chain: "is_chain three_pushed 3 [3, 2, 1]"
    by (simp add: three_pushed_def end_sp_def)
  have inside: "(3::nat) \<noteq> end_sp \<and> 3 \<le> length (pool three_pushed)"
    by (simp add: three_pushed_def end_sp_def)
  from total_on_valid_handles [of three_pushed 64 doubling 7 3 "()" "[3, 2, 1]"] inv chain inside
  show ?thesis by simp
qed

text \<open>
  C7. For two stacks A and B of one pool that share no node, \<^verbatim>\<open>free_stack\<close> on A returns
  the sentinel and leaves B as it was: B is the same chain of handles, and the loop over B
  collects the same values in the same order as before the call.
\<close>

theorem free_stack_frame:
  assumes a: "is_chain s a as"
    and b: "is_chain s b bs"
    and disj: "set as \<inter> set bs = {}"
  shows "\<exists>s'. free_stack a s = Some (Inr end_sp, s') \<and>
           is_chain s' b bs \<and>
           stack_values s' b = stack_values s b \<and>
           stack_values s b = Some (Inr (map (value_at s) bs))"
proof (cases as)
  case Nil
  with a have "a = end_sp" by simp
  with b show ?thesis
    by (simp add: free_stack_sentinel stack_values_chain)
next
  case (Cons x xs)
  then have ne: "as \<noteq> []" by simp
  let ?t = "last as"
  let ?s' = "s\<lparr>pool := (pool s)[?t - 1 := (pool s ! (?t - 1))\<lparr>node_next := free_nodes s\<rparr>],
        free_nodes := a\<rparr>"
  have free: "free_stack a s = Some (Inr end_sp, ?s')"
    using a ne by (rule free_stack_chain)
  from ne have t: "?t \<in> set as" by simp
  with a have t0: "?t \<noteq> 0" by (auto dest: is_chain_inside)
  have same: "pool ?s' ! (y - 1) = pool s ! (y - 1)" if y: "y \<in> set bs" for y
  proof -
    from b y have "y \<noteq> 0" by (auto dest: is_chain_inside)
    moreover from y t disj have "y \<noteq> ?t" by auto
    ultimately have "?t - 1 \<noteq> y - 1" using t0 by arith
    then show ?thesis by simp
  qed
  have len: "length (pool s) \<le> length (pool ?s')" by simp
  have chain': "is_chain ?s' b bs"
    using b len by (rule is_chain_frame) (simp only: same)
  have "map (value_at ?s') bs = map (value_at s) bs"
    by (rule map_cong [OF refl]) (simp only: value_at_def same)
  with stack_values_chain [OF chain'] stack_values_chain [OF b] free chain'
  show ?thesis by simp
qed

theorem free_stack_frame_witness:
  "is_chain two_stacks 3 [3, 2, 1] \<and> is_chain two_stacks 5 [5, 4] \<and>
   set [3, 2, 1] \<inter> set [5, 4] = ({} :: nat set) \<and>
   stack_values two_stacks 5 = Some (Inr [50, 40]) \<and>
   (\<exists>s'. free_stack 3 two_stacks = Some (Inr end_sp, s') \<and>
      stack_values s' 5 = Some (Inr [50, 40]))"
proof -
  have a: "is_chain two_stacks 3 [3, 2, 1]"
    by (simp add: two_stacks_eq end_sp_def)
  have b: "is_chain two_stacks 5 [5, 4]"
    by (simp add: two_stacks_eq end_sp_def)
  have disj: "set [3, 2, 1] \<inter> set [5, 4] = ({} :: nat set)" by simp
  have vals: "stack_values two_stacks 5 = Some (Inr [50, 40])"
    unfolding two_stacks_eq by code_simp
  from free_stack_frame [OF a b disj] a b vals show ?thesis by auto
qed

text \<open>
  C8. \<^verbatim>\<open>operator==\<close> compares the current handles and nothing else, and \<^verbatim>\<open>operator!=\<close> is
  its negation: two iterators built over any two pools \<open>p\<close> and \<open>q\<close> are equal exactly when
  their handles are.
\<close>

theorem iterator_eq_current:
  "it_eq x y = (current x = current y) \<and>
   it_neq x y = (\<not> it_eq x y) \<and>
   it_eq (iterator_ctor p h) (iterator_ctor q k) = (h = k) \<and>
   it_neq (iterator_ctor p h) (iterator_ctor q k) = (h \<noteq> k)"
  by (simp add: it_eq_def it_neq_def iterator_ctor_def)

text \<open>
  C9. After the assignment \<^verbatim>\<open>a = b\<close> the iterator \<open>a\<close> has the current handle of \<open>b\<close> and
  the pool pointer it had before, so \<^verbatim>\<open>*a\<close> and \<^verbatim>\<open>++a\<close> read the handle of \<open>b\<close> in the pool
  of \<open>a\<close>, whatever pool \<open>b\<close> points to.
\<close>

theorem iterator_assign_keeps_pool:
  "current (it_assign a b) = current b \<and>
   pool_ptr (it_assign a b) = pool_ptr a \<and>
   it_deref H (it_assign a b) = value_sp (current b) (H (pool_ptr a)) \<and>
   it_incr H (it_assign a b) =
     (case next_sp (current b) (H (pool_ptr a)) of
        Inl e \<Rightarrow> Inl e
      | Inr n \<Rightarrow> Inr \<lparr>current = n, pool_ptr = pool_ptr a\<rparr>)"
  by (cases a) (simp add: it_assign_def it_deref_def it_incr_def split: sum.split)

text \<open>
  C10, as the claim states it, fails where the new size of the vector is a multiple of
  \<open>2 ^ w\<close>. With 8-bit handles, 255 nodes and an empty free list, \<^verbatim>\<open>push\<close> onto an empty
  stack appends node 256 and returns 256 converted to 8 bits, which is the sentinel.
\<close>

theorem push_returns_sentinel:
  "free_nodes full_stack = end_sp \<and> length (pool full_stack) = 255 \<and>
   fst (push 8 doubling 7 end_sp full_stack) = Inr end_sp \<and>
   length (pool (snd (push 8 doubling 7 end_sp full_stack))) = 256 \<and>
   empty_sp end_sp"
  by (simp add: push_grow push_back_pool full_stack_free full_stack_length to_stack_type_def
      end_sp_def empty_sp_def)

text \<open>
  C10, amended. With a free list that is not empty \<^verbatim>\<open>push\<close> returns the free-list head of
  before, which is not the sentinel. With an empty free list it returns the new length of the
  vector, at least 1, converted to the handle type: that is the sentinel exactly when the new
  length is a multiple of \<open>2 ^ w\<close>, and never while the vector held fewer than \<open>2 ^ w - 1\<close>
  nodes before the call.
\<close>

theorem push_never_sentinel:
  assumes "push w g v h s = (Inr k, s')"
  shows "(if empty_sp (free_nodes s)
          then k = to_stack_type w (length (pool s')) \<and> 1 \<le> length (pool s')
          else k = free_nodes s) \<and>
         empty_sp k = (empty_sp (free_nodes s) \<and> 2 ^ w dvd length (pool s')) \<and>
         (length (pool s) < 2 ^ w - 1 \<longrightarrow> \<not> empty_sp k \<and> k \<noteq> end_sp)"
proof (cases "free_nodes s = 0")
  case True
  with assms have k: "k = to_stack_type w (Suc (length (pool s)))"
    and s': "s' = push_back g \<lparr>node_value = v, node_next = h\<rparr> s"
    by (simp_all add: push_grow)
  from s' have len: "length (pool s') = Suc (length (pool s))"
    by (simp add: push_back_pool)
  have "k \<noteq> 0" if "length (pool s) < 2 ^ w - 1"
  proof -
    from that have "Suc (length (pool s)) < 2 ^ w" by arith
    with k show ?thesis by (simp add: to_stack_type_small)
  qed
  with True k len show ?thesis
    by (simp add: empty_sp_def end_sp_def to_stack_type_def mod_eq_0_iff_dvd)
next
  case False
  show ?thesis
  proof (cases "free_nodes s \<le> length (pool s)")
    case True
    with False assms show ?thesis
      by (auto simp: push_reuse empty_sp_def end_sp_def)
  next
    case False
    with assms show ?thesis
      by (simp add: push_outside)
  qed
qed

theorem push_never_sentinel_witness:
  "push 64 doubling (10::nat) end_sp (stack_pool_ctor 0) =
     (Inr 1, \<lparr>pool = [\<lparr>node_value = 10, node_next = 0\<rparr>], pool_capacity = 1, free_nodes = 0\<rparr>) \<and>
   empty_sp (free_nodes (stack_pool_ctor 0 :: nat stack_pool)) \<and>
   length (pool (stack_pool_ctor 0 :: nat stack_pool)) < 2 ^ 64 - 1 \<and>
   \<not> empty_sp 1 \<and>
   push 64 doubling 30 1 one_free =
     (Inr 2,
      \<lparr>pool = [\<lparr>node_value = 10, node_next = 0\<rparr>, \<lparr>node_value = 30, node_next = 1\<rparr>],
        pool_capacity = 2, free_nodes = 0\<rparr>) \<and>
   \<not> empty_sp (free_nodes one_free) \<and>
   length (pool one_free) < 2 ^ 64 - 1 \<and>
   \<not> empty_sp 2"
proof -
  have grown: "push 64 doubling (10::nat) end_sp (stack_pool_ctor 0) =
     (Inr 1, \<lparr>pool = [\<lparr>node_value = 10, node_next = 0\<rparr>], pool_capacity = 1, free_nodes = 0\<rparr>)"
    by (simp add: push_eval)
  have reused: "push 64 doubling 30 1 one_free =
     (Inr 2,
      \<lparr>pool = [\<lparr>node_value = 10, node_next = 0\<rparr>, \<lparr>node_value = 30, node_next = 1\<rparr>],
        pool_capacity = 2, free_nodes = 0\<rparr>)"
    by (simp add: push_eval one_free_def)
  have pools: "empty_sp (free_nodes (stack_pool_ctor 0 :: nat stack_pool))"
    "length (pool (stack_pool_ctor 0 :: nat stack_pool)) < 2 ^ 64 - 1"
    "\<not> empty_sp (free_nodes one_free)" "length (pool one_free) < 2 ^ 64 - 1"
    by (simp_all add: stack_pool_ctor_def reserve_def new_stack_def one_free_def empty_sp_def
        end_sp_def)
  from push_never_sentinel [OF grown] push_never_sentinel [OF reused] grown reused pools
  show ?thesis by simp
qed

end
